theory Spec2Isabelle
  imports Main
begin

section \<open>Data model\<close>

text \<open>
  Go's \<^verbatim>\<open>error\<close> values that the program creates or receives.
  \<^verbatim>\<open>errors.New(msg)\<close> is \<open>ErrorNew msg\<close>, and
  \<^verbatim>\<open>fmt.Errorf("msg: %w", err)\<close> is \<open>ErrorWrap ''msg'' err\<close>.
  The remaining constructors are the errors of the standard library calls the program
  makes: \<^verbatim>\<open>strconv.ParseInt\<close> (syntax, range), \<^verbatim>\<open>os.Open\<close> and
  \<^verbatim>\<open>encoding/csv\<close>.
\<close>

datatype error =
    ErrorNew string
  | ErrorWrap string error
  | ErrSyntax
  | ErrRange
  | ErrOpen
  | ErrFieldCount
  | ErrCsvLex

text \<open>
  \<^verbatim>\<open>type StaffMapping struct { StaffPassID string; TeamName string; CreatedAt int64 }\<close>
  and
  \<^verbatim>\<open>type Redemption struct { TeamName string; RedeemedAt int64 }\<close>.
  The two \<^verbatim>\<open>int64\<close> fields are only stored, never computed with, so they are
  modelled as \<open>int\<close>; \<open>ParseInt_range\<close> below shows that a parsed value lies in
  the signed 64-bit range.
\<close>

record StaffMapping =
  StaffPassID :: string
  TeamName :: string
  CreatedAt :: int

record Redemption =
  TeamName :: string
  RedeemedAt :: int

text \<open>
  \<^verbatim>\<open>type RedemptionManager struct { mu sync.Mutex; redemptions map[string]Redemption }\<close>.
  Every method takes \<^verbatim>\<open>mu\<close> on entry and releases it on return
  (\<^verbatim>\<open>defer rm.mu.Unlock()\<close>), so in a sequential run the mutex is free between
  calls and each call is one transition of the store. The mutex itself is modelled in the
  section on concurrent calls.
\<close>

record RedemptionManager =
  redemptions :: "string \<rightharpoonup> Redemption"

section \<open>The redemption manager\<close>

definition NewRedemptionManager :: RedemptionManager where
  "NewRedemptionManager = \<lparr>redemptions = Map.empty\<rparr>"

text \<open>
  \<^verbatim>\<open>_, exists := rm.redemptions[teamName]; return !exists\<close>.
  The method has a pointer receiver, so the model returns the manager after the call
  together with the result.
\<close>

definition IsEligible :: "RedemptionManager \<Rightarrow> string \<Rightarrow> bool \<times> RedemptionManager" where
  "IsEligible rm teamName =
     (case redemptions rm teamName of
        None \<Rightarrow> (True, rm)
      | Some _ \<Rightarrow> (False, rm))"

definition AlreadyRedeemed :: error where
  "AlreadyRedeemed = ErrorNew ''team has already redeemed their gift''"

text \<open>
  \<open>now\<close> is the value that \<^verbatim>\<open>time.Now().UnixMilli()\<close> yields during the call.
  The Go method returns \<^verbatim>\<open>(nil, err)\<close> or \<^verbatim>\<open>(&redemption, nil)\<close>; the
  pointer is to the local variable, of which the map holds a copy.
\<close>

definition AddRedemption ::
  "RedemptionManager \<Rightarrow> int \<Rightarrow> string \<Rightarrow> (error + Redemption) \<times> RedemptionManager" where
  "AddRedemption rm now teamName =
     (case redemptions rm teamName of
        Some _ \<Rightarrow> (Inl AlreadyRedeemed, rm)
      | None \<Rightarrow>
          (let redemption = \<lparr>TeamName = teamName, RedeemedAt = now\<rparr>
           in (Inr redemption, rm\<lparr>redemptions := (redemptions rm)(teamName \<mapsto> redemption)\<rparr>)))"

subsection \<open>Sequences of calls\<close>

text \<open>
  A client of the manager issues calls one after the other; each call of
  \<^verbatim>\<open>AddRedemption\<close> carries the clock reading it will observe.
\<close>

datatype call = CallIsEligible string | CallAddRedemption string int

datatype reply = ReplyIsEligible bool | ReplyAddRedemption "error + Redemption"

fun step :: "RedemptionManager \<Rightarrow> call \<Rightarrow> reply \<times> RedemptionManager" where
  "step rm (CallIsEligible teamName) =
     (let (b, rm') = IsEligible rm teamName in (ReplyIsEligible b, rm'))"
| "step rm (CallAddRedemption teamName now) =
     (let (r, rm') = AddRedemption rm now teamName in (ReplyAddRedemption r, rm'))"

fun exec :: "RedemptionManager \<Rightarrow> call list \<Rightarrow> RedemptionManager" where
  "exec rm [] = rm"
| "exec rm (c # cs) = exec (snd (step rm c)) cs"

fun replies :: "RedemptionManager \<Rightarrow> call list \<Rightarrow> reply list" where
  "replies rm [] = []"
| "replies rm (c # cs) = fst (step rm c) # replies (snd (step rm c)) cs"

text \<open>A call paired with its reply is a successful \<^verbatim>\<open>AddRedemption\<close> of the team.\<close>

fun redeems :: "string \<Rightarrow> call \<times> reply \<Rightarrow> bool" where
  "redeems t (CallAddRedemption teamName now, ReplyAddRedemption (Inr r)) = (teamName = t)"
| "redeems t _ = False"

text \<open>The records of the store that carry a given team name.\<close>

definition records_of :: "RedemptionManager \<Rightarrow> string \<Rightarrow> Redemption set" where
  "records_of rm t = {r \<in> ran (redemptions rm). Redemption.TeamName r = t}"

section \<open>Properties of the redemption manager\<close>

lemma IsEligible_state [simp]: "snd (IsEligible rm t) = rm"
  by (simp add: IsEligible_def split: option.split)

lemma IsEligible_result [simp]: "fst (IsEligible rm t) \<longleftrightarrow> redemptions rm t = None"
  by (simp add: IsEligible_def split: option.split)

lemma AddRedemption_present:
  "redemptions rm t = Some r \<Longrightarrow> AddRedemption rm now t = (Inl AlreadyRedeemed, rm)"
  by (simp add: AddRedemption_def)

lemma AddRedemption_absent:
  "redemptions rm t = None \<Longrightarrow>
   AddRedemption rm now t =
     (Inr \<lparr>TeamName = t, RedeemedAt = now\<rparr>,
      rm\<lparr>redemptions := (redemptions rm)(t \<mapsto> \<lparr>TeamName = t, RedeemedAt = now\<rparr>)\<rparr>)"
  by (simp add: AddRedemption_def Let_def)

lemma step_keeps_record:
  "redemptions rm t = Some r \<Longrightarrow> redemptions (snd (step rm c)) t = Some r"
  by (cases c) (auto simp: AddRedemption_def Let_def split_def split: option.split)

lemma exec_keeps_record:
  "redemptions rm t = Some r \<Longrightarrow> redemptions (exec rm cs) t = Some r"
  by (induction cs arbitrary: rm) (simp_all add: step_keeps_record)

text \<open>Every record is filed under its own team name.\<close>

definition keyed :: "RedemptionManager \<Rightarrow> bool" where
  "keyed rm \<longleftrightarrow> (\<forall>t r. redemptions rm t = Some r \<longrightarrow> Redemption.TeamName r = t)"

lemma keyed_New: "keyed NewRedemptionManager"
  by (simp add: keyed_def NewRedemptionManager_def)

lemma keyed_step: "keyed rm \<Longrightarrow> keyed (snd (step rm c))"
  by (cases c) (auto simp: keyed_def AddRedemption_def Let_def split_def split: option.split)

lemma keyed_exec: "keyed rm \<Longrightarrow> keyed (exec rm cs)"
  by (induction cs arbitrary: rm) (simp_all add: keyed_step)

lemma keyed_records_of:
  assumes "keyed rm"
  shows "records_of rm t \<subseteq> (case redemptions rm t of None \<Rightarrow> {} | Some r \<Rightarrow> {r})"
proof
  fix r assume "r \<in> records_of rm t"
  then obtain k where k: "redemptions rm k = Some r" and t: "Redemption.TeamName r = t"
    by (auto simp: records_of_def ran_def)
  from assms k have "Redemption.TeamName r = k" by (simp add: keyed_def)
  with t k show "r \<in> (case redemptions rm t of None \<Rightarrow> {} | Some r \<Rightarrow> {r})"
    by simp
qed

lemma exec_append: "exec rm (cs @ cs') = exec (exec rm cs) cs'"
  by (induction cs arbitrary: rm) simp_all

lemma replies_take: "replies rm (take k cs) = take k (replies rm cs)"
proof (induction cs arbitrary: rm k)
  case Nil
  then show ?case by simp
next
  case (Cons c cs)
  then show ?case by (cases k) simp_all
qed

lemma length_replies [simp]: "length (replies rm cs) = length cs"
  by (induction cs arbitrary: rm) simp_all

lemma step_redeems:
  "redeems t (c, fst (step rm c)) \<longleftrightarrow>
     (\<exists>now. c = CallAddRedemption t now) \<and> redemptions rm t = None"
  by (cases c) (auto simp: AddRedemption_def Let_def split_def split: option.split)

lemma step_eligible:
  "redemptions (snd (step rm c)) t = None \<longleftrightarrow>
     redemptions rm t = None \<and> \<not> redeems t (c, fst (step rm c))"
  by (cases c) (auto simp: AddRedemption_def Let_def split_def split: option.split)

lemma exec_eligible:
  "redemptions (exec rm cs) t = None \<longleftrightarrow>
     redemptions rm t = None \<and> \<not> list_ex (redeems t) (zip cs (replies rm cs))"
proof (induction cs arbitrary: rm)
  case Nil
  then show ?case by simp
next
  case (Cons c cs)
  have "redemptions (exec rm (c # cs)) t = None \<longleftrightarrow>
        redemptions (snd (step rm c)) t = None \<and>
        \<not> list_ex (redeems t) (zip cs (replies (snd (step rm c)) cs))"
    using Cons.IH [of "snd (step rm c)"] by simp
  then show ?case
    using step_eligible [of rm c t] by auto
qed

lemma redeems_count:
  "length (filter (redeems t) (zip cs (replies rm cs))) =
     (if redemptions (exec rm cs) t = None \<or> redemptions rm t \<noteq> None then 0 else 1)"
proof (induction cs arbitrary: rm)
  case Nil
  then show ?case by auto
next
  case (Cons c cs)
  show ?case
  proof (cases "redeems t (c, fst (step rm c))")
    case True
    then have none: "redemptions rm t = None"
      and some: "redemptions (snd (step rm c)) t \<noteq> None"
      using step_redeems [of t c rm] step_eligible [of rm c t] by auto
    then have "redemptions (exec (snd (step rm c)) cs) t \<noteq> None"
      using exec_keeps_record by fastforce
    with True none some Cons.IH [of "snd (step rm c)"] show ?thesis
      by simp
  next
    case False
    then have "redemptions (snd (step rm c)) t = None \<longleftrightarrow> redemptions rm t = None"
      using step_eligible [of rm c t] by simp
    with False Cons.IH [of "snd (step rm c)"] show ?thesis
      by auto
  qed
qed

text \<open>
  C3. \<^verbatim>\<open>IsEligible(teamName)\<close> returns true exactly when the store holds no record
  for the team, and the manager after the call is the manager before it.
\<close>

theorem IsEligible_pure_read:
  "IsEligible rm teamName = (redemptions rm teamName = None, rm)"
  by (simp add: IsEligible_def split: option.split)

text \<open>
  C9. In any state, \<^verbatim>\<open>AddRedemption(teamName)\<close> returns a record without error
  exactly when \<^verbatim>\<open>IsEligible(teamName)\<close> returns true in that state.
\<close>

theorem AddRedemption_succeeds_iff_IsEligible:
  "(\<exists>r. fst (AddRedemption rm now teamName) = Inr r) = fst (IsEligible rm teamName)"
  by (simp add: AddRedemption_def IsEligible_def Let_def split: option.split)

text \<open>
  C2. \<^verbatim>\<open>AddRedemption(teamName)\<close> fails with the already-redeemed error exactly when
  a record for the team exists, and then the manager is unchanged. Otherwise it returns the
  record with team name \<open>teamName\<close> and the clock reading, and the store after the call is
  the store before it with that record added under \<open>teamName\<close>: one more key, every other
  key as before. A second call for the same team, whatever the clock, fails with the
  already-redeemed error and changes nothing, so the record stored by a successful first
  call is still there.
\<close>

theorem AddRedemption_once:
  "(fst (AddRedemption rm now teamName) = Inl AlreadyRedeemed
      \<longleftrightarrow> redemptions rm teamName \<noteq> None)
   \<and> (redemptions rm teamName \<noteq> None \<longrightarrow> snd (AddRedemption rm now teamName) = rm)
   \<and> (redemptions rm teamName = None \<longrightarrow>
         fst (AddRedemption rm now teamName) = Inr \<lparr>TeamName = teamName, RedeemedAt = now\<rparr>
         \<and> redemptions (snd (AddRedemption rm now teamName))
             = (redemptions rm)(teamName \<mapsto> \<lparr>TeamName = teamName, RedeemedAt = now\<rparr>)
         \<and> dom (redemptions (snd (AddRedemption rm now teamName)))
             = insert teamName (dom (redemptions rm))
         \<and> (\<forall>k. k \<noteq> teamName \<longrightarrow>
               redemptions (snd (AddRedemption rm now teamName)) k = redemptions rm k))
   \<and> AddRedemption (snd (AddRedemption rm now teamName)) now' teamName
        = (Inl AlreadyRedeemed, snd (AddRedemption rm now teamName))"
proof (cases "redemptions rm teamName")
  case None
  then show ?thesis
    by (simp add: AddRedemption_absent AddRedemption_present)
next
  case (Some r)
  then show ?thesis
    by (simp add: AddRedemption_present)
qed

theorem AddRedemption_once_witness:
  "redemptions NewRedemptionManager ''RUST'' = None
   \<and> fst (AddRedemption NewRedemptionManager 5 ''RUST'')
       = Inr \<lparr>TeamName = ''RUST'', RedeemedAt = 5\<rparr>
   \<and> redemptions (snd (AddRedemption NewRedemptionManager 5 ''RUST'')) ''RUST''
       = Some \<lparr>TeamName = ''RUST'', RedeemedAt = 5\<rparr>
   \<and> redemptions (snd (AddRedemption NewRedemptionManager 5 ''RUST'')) ''BASS'' = None
   \<and> AddRedemption (snd (AddRedemption NewRedemptionManager 5 ''RUST'')) 9 ''RUST''
       = (Inl AlreadyRedeemed, snd (AddRedemption NewRedemptionManager 5 ''RUST''))
   \<and> redemptions (snd (AddRedemption NewRedemptionManager 5 ''RUST'')) ''RUST'' \<noteq> None
   \<and> snd (AddRedemption (snd (AddRedemption NewRedemptionManager 5 ''RUST'')) 9 ''RUST'')
       = snd (AddRedemption NewRedemptionManager 5 ''RUST'')"
proof -
  have none: "redemptions NewRedemptionManager ''RUST'' = None"
    by (simp add: NewRedemptionManager_def)
  note call = AddRedemption_once [of NewRedemptionManager 5 "''RUST''" 9]
  note ok = call [THEN conjunct2, THEN conjunct2, THEN conjunct1, THEN mp, OF none]
  have first: "fst (AddRedemption NewRedemptionManager 5 ''RUST'')
                 = Inr \<lparr>TeamName = ''RUST'', RedeemedAt = 5\<rparr>"
    by (rule ok [THEN conjunct1])
  have "redemptions (snd (AddRedemption NewRedemptionManager 5 ''RUST''))
          = (redemptions NewRedemptionManager)(''RUST'' \<mapsto> \<lparr>TeamName = ''RUST'', RedeemedAt = 5\<rparr>)"
    by (rule ok [THEN conjunct2, THEN conjunct1])
  then have stored: "redemptions (snd (AddRedemption NewRedemptionManager 5 ''RUST'')) ''RUST''
          = Some \<lparr>TeamName = ''RUST'', RedeemedAt = 5\<rparr>"
    by simp
  have "''BASS'' \<noteq> ''RUST''"
    by simp
  then have "redemptions (snd (AddRedemption NewRedemptionManager 5 ''RUST'')) ''BASS''
          = redemptions NewRedemptionManager ''BASS''"
    by (rule ok [THEN conjunct2, THEN conjunct2, THEN conjunct2, THEN spec, THEN mp])
  then have bass: "redemptions (snd (AddRedemption NewRedemptionManager 5 ''RUST'')) ''BASS'' = None"
    by (simp add: NewRedemptionManager_def)
  have second: "AddRedemption (snd (AddRedemption NewRedemptionManager 5 ''RUST'')) 9 ''RUST''
       = (Inl AlreadyRedeemed, snd (AddRedemption NewRedemptionManager 5 ''RUST''))"
    by (rule call [THEN conjunct2, THEN conjunct2, THEN conjunct2])
  have some: "redemptions (snd (AddRedemption NewRedemptionManager 5 ''RUST'')) ''RUST'' \<noteq> None"
    using stored by simp
  note again =
    AddRedemption_once [of "snd (AddRedemption NewRedemptionManager 5 ''RUST'')" 9 "''RUST''" 9]
  have unchanged: "snd (AddRedemption (snd (AddRedemption NewRedemptionManager 5 ''RUST'')) 9 ''RUST'')
       = snd (AddRedemption NewRedemptionManager 5 ''RUST'')"
    by (rule again [THEN conjunct2, THEN conjunct1, THEN mp, OF some])
  from none first stored bass second some unchanged show ?thesis
    by (intro conjI)
qed

text \<open>
  C1. In every state reached from \<^verbatim>\<open>NewRedemptionManager()\<close> by a sequence of
  \<^verbatim>\<open>IsEligible\<close> and \<^verbatim>\<open>AddRedemption\<close> calls, the store holds at most one
  record carrying a given team name, every record is filed under its own team name, and a
  record that is present is present, unchanged, after any further sequence of calls.
\<close>

theorem store_only_grows:
  "finite (records_of (exec NewRedemptionManager cs) t)
   \<and> card (records_of (exec NewRedemptionManager cs) t) \<le> 1
   \<and> (\<forall>r. redemptions (exec NewRedemptionManager cs) t = Some r \<longrightarrow>
          Redemption.TeamName r = t
          \<and> redemptions (exec (exec NewRedemptionManager cs) cs') t = Some r)"
proof -
  let ?rm = "exec NewRedemptionManager cs"
  have k: "keyed ?rm"
    by (rule keyed_exec [OF keyed_New])
  have sub: "records_of ?rm t \<subseteq> (case redemptions ?rm t of None \<Rightarrow> {} | Some r \<Rightarrow> {r})"
    by (rule keyed_records_of [OF k])
  have fin: "finite (case redemptions ?rm t of None \<Rightarrow> {} | Some r \<Rightarrow> {r})"
    by (simp split: option.split)
  have crd: "card (case redemptions ?rm t of None \<Rightarrow> {} | Some r \<Rightarrow> {r}) \<le> 1"
    by (simp split: option.split)
  have "finite (records_of ?rm t)"
    using sub fin by (rule finite_subset)
  moreover have "card (records_of ?rm t) \<le> 1"
    using card_mono [OF fin sub] crd by simp
  moreover have "\<forall>r. redemptions ?rm t = Some r \<longrightarrow>
      Redemption.TeamName r = t \<and> redemptions (exec ?rm cs') t = Some r"
    using k by (simp add: keyed_def exec_keeps_record)
  ultimately show ?thesis
    by (intro conjI)
qed

theorem store_only_grows_witness:
  "redemptions (exec NewRedemptionManager [CallAddRedemption ''RUST'' 5, CallIsEligible ''RUST''])
     ''RUST'' = Some \<lparr>TeamName = ''RUST'', RedeemedAt = 5\<rparr>
   \<and> redemptions
       (exec (exec NewRedemptionManager [CallAddRedemption ''RUST'' 5, CallIsEligible ''RUST''])
          [CallAddRedemption ''RUST'' 9, CallAddRedemption ''BASS'' 7])
       ''RUST'' = Some \<lparr>TeamName = ''RUST'', RedeemedAt = 5\<rparr>"
proof -
  have present:
    "redemptions (exec NewRedemptionManager [CallAddRedemption ''RUST'' 5, CallIsEligible ''RUST''])
       ''RUST'' = Some \<lparr>TeamName = ''RUST'', RedeemedAt = 5\<rparr>"
    by (simp add: NewRedemptionManager_def AddRedemption_def Let_def split_def)
  note grows = store_only_grows
    [of "[CallAddRedemption ''RUST'' 5, CallIsEligible ''RUST'']" "''RUST''"
        "[CallAddRedemption ''RUST'' 9, CallAddRedemption ''BASS'' 7]"]
  have later:
    "redemptions
       (exec (exec NewRedemptionManager [CallAddRedemption ''RUST'' 5, CallIsEligible ''RUST''])
          [CallAddRedemption ''RUST'' 9, CallAddRedemption ''BASS'' 7])
       ''RUST'' = Some \<lparr>TeamName = ''RUST'', RedeemedAt = 5\<rparr>"
    by (rule grows [THEN conjunct2, THEN conjunct2, THEN spec, THEN mp, OF present, THEN conjunct2])
  from present later show ?thesis
    by (intro conjI)
qed

text \<open>
  C4. Run any sequence of calls from \<^verbatim>\<open>NewRedemptionManager()\<close>. After the first
  \<open>k\<close> calls, \<^verbatim>\<open>IsEligible(t)\<close> returns true exactly when none of those \<open>k\<close>
  calls was a successful \<^verbatim>\<open>AddRedemption(t)\<close>. At most one call of the whole sequence
  is a successful \<^verbatim>\<open>AddRedemption(t)\<close>, and once \<^verbatim>\<open>IsEligible(t)\<close> is false it is
  false after every longer prefix.
\<close>

theorem eligible_until_redeemed:
  "(fst (IsEligible (exec NewRedemptionManager (take k cs)) t)
      \<longleftrightarrow> \<not> list_ex (redeems t) (take k (zip cs (replies NewRedemptionManager cs))))
   \<and> length (filter (redeems t) (zip cs (replies NewRedemptionManager cs))) \<le> 1
   \<and> (k \<le> k' \<and> \<not> fst (IsEligible (exec NewRedemptionManager (take k cs)) t)
        \<longrightarrow> \<not> fst (IsEligible (exec NewRedemptionManager (take k' cs)) t))"
proof -
  let ?new = NewRedemptionManager
  have fresh: "redemptions ?new t = None"
    by (simp add: NewRedemptionManager_def)
  have pre: "take k (zip cs (replies ?new cs)) = zip (take k cs) (replies ?new (take k cs))"
    by (simp add: take_zip replies_take)
  have a: "fst (IsEligible (exec ?new (take k cs)) t)
      \<longleftrightarrow> \<not> list_ex (redeems t) (take k (zip cs (replies ?new cs)))"
    using exec_eligible [of ?new "take k cs" t] fresh pre by simp
  have b: "length (filter (redeems t) (zip cs (replies ?new cs))) \<le> 1"
    by (simp add: redeems_count)
  have c: "\<not> fst (IsEligible (exec ?new (take k' cs)) t)"
    if le: "k \<le> k'" and red: "\<not> fst (IsEligible (exec ?new (take k cs)) t)"
  proof -
    from red obtain r where r: "redemptions (exec ?new (take k cs)) t = Some r"
      by auto
    have "take k' cs = take k cs @ take (k' - k) (drop k cs)"
      using le by (metis le_add_diff_inverse take_add)
    then have "exec ?new (take k' cs) = exec (exec ?new (take k cs)) (take (k' - k) (drop k cs))"
      by (simp add: exec_append)
    with r show ?thesis
      by (simp add: exec_keeps_record)
  qed
  from a b c show ?thesis
    by blast
qed

theorem eligible_until_redeemed_witness:
  "fst (IsEligible (exec NewRedemptionManager
      (take 1 [CallIsEligible ''RUST'', CallAddRedemption ''RUST'' 5,
               CallAddRedemption ''RUST'' 9, CallIsEligible ''BASS''])) ''RUST'')
   \<and> (2::nat) \<le> 4
   \<and> \<not> fst (IsEligible (exec NewRedemptionManager
      (take 2 [CallIsEligible ''RUST'', CallAddRedemption ''RUST'' 5,
               CallAddRedemption ''RUST'' 9, CallIsEligible ''BASS''])) ''RUST'')
   \<and> \<not> fst (IsEligible (exec NewRedemptionManager
      (take 4 [CallIsEligible ''RUST'', CallAddRedemption ''RUST'' 5,
               CallAddRedemption ''RUST'' 9, CallIsEligible ''BASS''])) ''RUST'')"
proof -
  let ?cs = "[CallIsEligible ''RUST'', CallAddRedemption ''RUST'' 5,
              CallAddRedemption ''RUST'' 9, CallIsEligible ''BASS'']"
  have before: "fst (IsEligible (exec NewRedemptionManager (take 1 ?cs)) ''RUST'')"
    by (simp add: NewRedemptionManager_def split_def)
  have le: "(2::nat) \<le> 4"
    by simp
  have after: "\<not> fst (IsEligible (exec NewRedemptionManager (take 2 ?cs)) ''RUST'')"
    by (simp add: NewRedemptionManager_def AddRedemption_def Let_def split_def)
  have later: "\<not> fst (IsEligible (exec NewRedemptionManager (take 4 ?cs)) ''RUST'')"
    by (rule eligible_until_redeemed [of 2 ?cs "''RUST''" 4,
          THEN conjunct2, THEN conjunct2, THEN mp, OF conjI, OF le after])
  from before le after later show ?thesis
    by (intro conjI)
qed

end
